theory Spec2Isabelle
  imports Main "HOL-Library.Word"
begin

section \<open>Python values used by genvalidatorkey.py\<close>

text \<open>
  A Python \<open>bytes\<close> object is a list of 8-bit words. A Python \<open>str\<close> is an Isabelle
  \<open>string\<close>, every \<open>char\<close> standing for the code point of the same number (so the
  model covers the strings whose code points are below 256). Python's unbounded
  non-negative integers (\<open>int.from_bytes\<close>, dictionary indices) are \<open>nat\<close>.
  Exceptions are values of \<open>error\<close>; a function that can raise returns \<open>error + 'a\<close>.
\<close>

type_synonym byte = "8 word"
type_synonym bytes = "byte list"

datatype error =
    ValueError
  | KeyError
  | IndexError
  | OverflowError
  | FileNotFoundError
  | InvalidKeyLengthError  \<comment> \<open>named by the specification only; no statement of the source raises it\<close>

subsection \<open>Built-in string operations\<close>

text \<open>\<open>str.isspace\<close> on one character, for the code points below 256:
  TAB, LF, VT, FF, CR, the separators 0x1C..0x1F, SPACE, NEL (0x85) and NBSP (0xA0).\<close>

definition is_space :: "char \<Rightarrow> bool" where
  "is_space c =
     (let n = (of_char c :: nat)
      in (9 \<le> n \<and> n \<le> 13) \<or> (28 \<le> n \<and> n \<le> 32) \<or> n = 133 \<or> n = 160)"

text \<open>\<open>s.strip()\<close>: leading and trailing whitespace removed.\<close>

definition strip :: "string \<Rightarrow> string" where
  "strip s = rev (dropWhile is_space (rev (dropWhile is_space s)))"

text \<open>\<open>s.split()\<close> with no separator: the maximal runs of non-whitespace characters, in
  order. \<open>split_from cur s\<close> scans \<open>s\<close> with the token read so far in \<open>cur\<close>.\<close>

fun split_from :: "string \<Rightarrow> string \<Rightarrow> string list" where
  "split_from cur [] = (if cur = [] then [] else [cur])"
| "split_from cur (c # cs) =
     (if is_space c
      then (if cur = [] then split_from [] cs else cur # split_from [] cs)
      else split_from (cur @ [c]) cs)"

definition split :: "string \<Rightarrow> string list" where
  "split s = split_from [] s"

text \<open>\<open>sep.join(xs)\<close>.\<close>

fun join :: "string \<Rightarrow> string list \<Rightarrow> string" where
  "join sep [] = []"
| "join sep [x] = x"
| "join sep (x # y # ys) = x @ sep @ join sep (y # ys)"

text \<open>\<open>bin(n)\<close> for \<open>n \<ge> 0\<close>: the prefix \<open>0b\<close> and the binary digits, most significant
  first, with no leading zero (\<open>bin(0) = '0b0'\<close>).\<close>

definition bit_char :: "nat \<Rightarrow> char" where
  "bit_char d = (if d = 0 then CHR ''0'' else CHR ''1'')"

fun bin_digits :: "nat \<Rightarrow> string" where
  "bin_digits n = (if n < 2 then [bit_char n] else bin_digits (n div 2) @ [bit_char (n mod 2)])"

declare bin_digits.simps [simp del]

definition bin :: "nat \<Rightarrow> string" where
  "bin n = ''0b'' @ bin_digits n"

text \<open>\<open>s.zfill(width)\<close>: zeros on the left up to \<open>width\<close>, after a leading sign if there
  is one.\<close>

definition zfill :: "nat \<Rightarrow> string \<Rightarrow> string" where
  "zfill width s =
     (if width \<le> length s then s
      else (case s of
              c # cs \<Rightarrow>
                if c = CHR ''+'' \<or> c = CHR ''-''
                then c # replicate (width - length s) CHR ''0'' @ cs
                else replicate (width - length s) CHR ''0'' @ s
            | [] \<Rightarrow> replicate width CHR ''0''))"

text \<open>\<open>int(s, 2)\<close> on a string of binary digits; the empty string raises ValueError.
  (Python also accepts a sign, a \<open>0b\<close> prefix, surrounding whitespace and single
  underscores; the program only passes strings of \<open>0\<close> and \<open>1\<close>, and the model
  reports every other string as ValueError.)\<close>

definition is_bit_char :: "char \<Rightarrow> bool" where
  "is_bit_char c = (c = CHR ''0'' \<or> c = CHR ''1'')"

definition bits_value :: "string \<Rightarrow> nat" where
  "bits_value s = foldl (\<lambda>acc c. 2 * acc + (if c = CHR ''1'' then 1 else 0)) 0 s"

definition int_base2 :: "string \<Rightarrow> error + nat" where
  "int_base2 s = (if s \<noteq> [] \<and> list_all is_bit_char s then Inr (bits_value s) else Inl ValueError)"

text \<open>The slices \<open>s[:-k]\<close> and \<open>s[-k:]\<close> for \<open>k \<ge> 0\<close>. Python reads \<open>-0\<close> as \<open>0\<close>:
  \<open>s[:-0]\<close> is empty and \<open>s[-0:]\<close> is all of \<open>s\<close>.\<close>

definition slice_upto_neg :: "nat \<Rightarrow> 'a list \<Rightarrow> 'a list" where
  "slice_upto_neg k s = (if k = 0 then [] else take (length s - k) s)"

definition slice_from_neg :: "nat \<Rightarrow> 'a list \<Rightarrow> 'a list" where
  "slice_from_neg k s = (if k = 0 then s else drop (length s - k) s)"

text \<open>\<open>range(0, stop, step)\<close> for \<open>step > 0\<close>.\<close>

definition range_step :: "nat \<Rightarrow> nat \<Rightarrow> nat list" where
  "range_step stop step = map (\<lambda>k. k * step) [0 ..< (stop + step - 1) div step]"

subsection \<open>Built-in conversions between integers, bytes and text\<close>

text \<open>\<open>int.from_bytes(bs, 'big')\<close>.\<close>

definition int_from_bytes :: "bytes \<Rightarrow> nat" where
  "int_from_bytes bs = foldl (\<lambda>acc b. 256 * acc + unat b) 0 bs"

text \<open>\<open>n.to_bytes(len, 'big')\<close>: OverflowError when \<open>n\<close> does not fit.\<close>

fun be_bytes :: "nat \<Rightarrow> nat \<Rightarrow> bytes" where
  "be_bytes 0 n = []"
| "be_bytes (Suc len) n = be_bytes len (n div 256) @ [of_nat (n mod 256)]"

definition to_bytes :: "nat \<Rightarrow> nat \<Rightarrow> error + bytes" where
  "to_bytes n len = (if n < 256 ^ len then Inr (be_bytes len n) else Inl OverflowError)"

text \<open>\<open>bs.hex()\<close>: two lowercase hexadecimal digits per byte.\<close>

definition hex_digit :: "nat \<Rightarrow> char" where
  "hex_digit d = ''0123456789abcdef'' ! d"

definition hex :: "bytes \<Rightarrow> string" where
  "hex bs = concat (map (\<lambda>b. [hex_digit (unat b div 16), hex_digit (unat b mod 16)]) bs)"

text \<open>\<open>s.upper()\<close> on ASCII text (the only text the program applies it to is the output
  of \<open>hex\<close>): the letters \<open>a\<close>..\<open>z\<close> move to \<open>A\<close>..\<open>Z\<close>, every other ASCII character
  stays.\<close>

definition upper_char :: "char \<Rightarrow> char" where
  "upper_char c =
     (let n = (of_char c :: nat) in if 97 \<le> n \<and> n \<le> 122 then char_of (n - 32) else c)"

definition upper :: "string \<Rightarrow> string" where
  "upper s = map upper_char s"

text \<open>\<open>s.encode('utf-8')\<close>: one byte for a code point below 128, two bytes for the
  others below 256.\<close>

definition utf8_char :: "char \<Rightarrow> bytes" where
  "utf8_char c =
     (let n = (of_char c :: nat)
      in if n < 128 then [of_nat n] else [of_nat (192 + n div 64), of_nat (128 + n mod 64)])"

definition encode_utf8 :: "string \<Rightarrow> bytes" where
  "encode_utf8 s = concat (map utf8_char s)"

section \<open>The imported modules\<close>

text \<open>
  The program calls \<open>hashlib\<close>, \<open>secrets\<close>, \<open>nacl.signing\<close>,
  \<open>cryptography\<close>'s \<open>ed25519\<close> and \<open>base64\<close>. Their code is not part of the
  repository, so the functions the program calls are parameters of the model, collected
  in one record together with the module-level flag \<open>HAS_NACL\<close> that the import
  block sets:
  \<^item> \<open>sha256 x\<close> is \<open>hashlib.sha256(x).digest()\<close>;
  \<^item> \<open>pbkdf2_hmac name password salt iterations\<close> is \<open>hashlib.pbkdf2_hmac\<close>;
  \<^item> \<open>token_bytes n\<close> is the draw \<open>secrets.token_bytes(n)\<close> of the run;
  \<^item> \<open>SigningKey k\<close> is \<open>nacl.signing.SigningKey(k)\<close>, read through \<open>bytes(key)\<close>
    and \<open>bytes(key.verify_key)\<close>;
  \<^item> \<open>from_private_bytes k\<close> is \<open>Ed25519PrivateKey.from_private_bytes(k)\<close>, read
    through the raw encoding of its public key;
  \<^item> \<open>b64encode x\<close> is \<open>base64.b64encode(x).decode('ascii')\<close>.
\<close>

record signing_key =
  key_bytes :: bytes
  verify_key :: bytes

record modules =
  sha256 :: "bytes \<Rightarrow> bytes"
  pbkdf2_hmac :: "string \<Rightarrow> bytes \<Rightarrow> bytes \<Rightarrow> nat \<Rightarrow> bytes"
  token_bytes :: "nat \<Rightarrow> bytes"
  HAS_NACL :: bool
  SigningKey :: "bytes \<Rightarrow> error + signing_key"
  from_private_bytes :: "bytes \<Rightarrow> error + bytes"
  b64encode :: "bytes \<Rightarrow> string"

text \<open>What the libraries' documentation promises, as far as the theorems use it.\<close>

definition hashlib_ok :: "modules \<Rightarrow> bool" where
  "hashlib_ok M = (\<forall>x. length (sha256 M x) = 32)"

text \<open>With no \<open>dklen\<close>, \<open>pbkdf2_hmac\<close> returns as many bytes as the digest has: 64 for
  SHA-512.\<close>

definition pbkdf2_ok :: "modules \<Rightarrow> bool" where
  "pbkdf2_ok M =
     (\<forall>password salt iterations. length (pbkdf2_hmac M ''sha512'' password salt iterations) = 64)"

definition secrets_ok :: "modules \<Rightarrow> bool" where
  "secrets_ok M = (\<forall>n. length (token_bytes M n) = n)"

text \<open>PyNaCl: a 32-byte seed gives a signing key whose \<open>bytes\<close> are the seed itself and
  whose verify key has 32 bytes.\<close>

definition nacl_ok :: "modules \<Rightarrow> bool" where
  "nacl_ok M =
     (\<forall>k. length k = 32 \<longrightarrow>
        (\<exists>pk. length pk = 32 \<and> SigningKey M k = Inr \<lparr>key_bytes = k, verify_key = pk\<rparr>))"

text \<open>cryptography: a 32-byte private value gives a key whose raw public key has 32 bytes.\<close>

definition cryptography_ok :: "modules \<Rightarrow> bool" where
  "cryptography_ok M =
     (\<forall>k. length k = 32 \<longrightarrow> (\<exists>pk. length pk = 32 \<and> from_private_bytes M k = Inr pk))"

text \<open>Both libraries implement the same ed25519 key derivation.\<close>

definition same_ed25519 :: "modules \<Rightarrow> bool" where
  "same_ed25519 M =
     (\<forall>k. length k = 32 \<longrightarrow>
        (case SigningKey M k of
           Inr sk \<Rightarrow> from_private_bytes M k = Inr (verify_key sk)
         | Inl e \<Rightarrow> False))"

section \<open>class BIP39\<close>

record BIP39 =
  wordlist :: "string list"
  wordlist_dict :: "string \<rightharpoonup> nat"

text \<open>\<open>_load_wordlist\<close>, from the iteration over the opened file down: the argument is
  the file's lines (\<open>None\<close> when no candidate path exists).\<close>

definition load_wordlist :: "string list option \<Rightarrow> error + string list" where
  "load_wordlist file =
     (case file of
        None \<Rightarrow> Inl FileNotFoundError
      | Some lines \<Rightarrow>
          (let wl = map strip (filter (\<lambda>line. strip line \<noteq> []) lines)
           in if length wl \<noteq> 2048 then Inl ValueError else Inr wl))"

text \<open>\<open>{word: idx for idx, word in enumerate(self.wordlist)}\<close>: a later occurrence of a
  word overwrites an earlier one.\<close>

definition dict_of_wordlist :: "string list \<Rightarrow> (string \<rightharpoonup> nat)" where
  "dict_of_wordlist wl =
     fold (\<lambda>(idx, word) d. d(word \<mapsto> idx)) (enumerate 0 wl) Map.empty"

definition init_BIP39 :: "string list option \<Rightarrow> error + BIP39" where
  "init_BIP39 file =
     (case load_wordlist file of
        Inl e \<Rightarrow> Inl e
      | Inr wl \<Rightarrow> Inr \<lparr>wordlist = wl, wordlist_dict = dict_of_wordlist wl\<rparr>)"

text \<open>The loop of \<open>_entropy_to_mnemonic\<close> over \<open>range(0, len(bits), 11)\<close>, with the
  list \<open>words\<close> built so far.\<close>

fun words_loop :: "BIP39 \<Rightarrow> string \<Rightarrow> nat list \<Rightarrow> string list \<Rightarrow> error + string list" where
  "words_loop self bits [] words = Inr words"
| "words_loop self bits (i # is) words =
     (case int_base2 (take 11 (drop i bits)) of
        Inl e \<Rightarrow> Inl e
      | Inr idx \<Rightarrow>
          if idx < length (wordlist self)
          then words_loop self bits is (words @ [wordlist self ! idx])
          else Inl IndexError)"

definition entropy_to_mnemonic :: "modules \<Rightarrow> BIP39 \<Rightarrow> bytes \<Rightarrow> error + string" where
  "entropy_to_mnemonic M self entropy =
     (if length entropy \<notin> set [16, 20, 24, 28, 32] then Inl ValueError
      else
        let checksum_length = length entropy div 4;
            checksum = sha256 M entropy;
            bits = zfill (length entropy * 8) (drop 2 (bin (int_from_bytes entropy)));
            checksum_bits = take checksum_length (zfill 256 (drop 2 (bin (int_from_bytes checksum))));
            bits = bits @ checksum_bits
        in (case words_loop self bits (range_step (length bits) 11) [] of
              Inl e \<Rightarrow> Inl e
            | Inr words \<Rightarrow> Inr (join '' '' words)))"

definition generate_mnemonic :: "modules \<Rightarrow> BIP39 \<Rightarrow> int \<Rightarrow> error + string" where
  "generate_mnemonic M self strength =
     (if strength \<notin> set [128, 160, 192, 224, 256] then Inl ValueError
      else
        let entropy_bytes = token_bytes M (nat (strength div 8))
        in entropy_to_mnemonic M self entropy_bytes)"

text \<open>The list comprehension \<open>[self.wordlist_dict[word] for word in words]\<close>: the first
  missing key raises KeyError.\<close>

fun lookup_all :: "(string \<rightharpoonup> nat) \<Rightarrow> string list \<Rightarrow> error + nat list" where
  "lookup_all d [] = Inr []"
| "lookup_all d (word # rest) =
     (case d word of
        None \<Rightarrow> Inl KeyError
      | Some idx \<Rightarrow>
          (case lookup_all d rest of
             Inl e \<Rightarrow> Inl e
           | Inr idxs \<Rightarrow> Inr (idx # idxs)))"

definition validate_mnemonic :: "modules \<Rightarrow> BIP39 \<Rightarrow> string \<Rightarrow> error + bool" where
  "validate_mnemonic M self mnemonic =
     (let words = split (strip mnemonic)
      in if length words \<notin> set [12, 15, 18, 21, 24] then Inr False
         else
           (case lookup_all (wordlist_dict self) words of
              Inl KeyError \<Rightarrow> Inr False
            | Inl e \<Rightarrow> Inl e
            | Inr indices \<Rightarrow>
                let bits = concat (map (\<lambda>idx. zfill 11 (drop 2 (bin idx))) indices);
                    checksum_length = length words div 3;
                    entropy_bits = slice_upto_neg checksum_length bits;
                    checksum_bits = slice_from_neg checksum_length bits
                in (case int_base2 entropy_bits of
                      Inl e \<Rightarrow> Inl e
                    | Inr n \<Rightarrow>
                        (case to_bytes n (length entropy_bits div 8) of
                           Inl e \<Rightarrow> Inl e
                         | Inr entropy \<Rightarrow>
                             let expected_checksum =
                                   zfill 256 (drop 2 (bin (int_from_bytes (sha256 M entropy))));
                                 expected_checksum = take checksum_length expected_checksum
                             in Inr (checksum_bits = expected_checksum)))))"

definition mnemonic_to_seed :: "modules \<Rightarrow> BIP39 \<Rightarrow> string \<Rightarrow> string \<Rightarrow> bytes" where
  "mnemonic_to_seed M self mnemonic passphrase =
     (let mnemonic_bytes = encode_utf8 mnemonic;
          salt = encode_utf8 (''mnemonic'' @ passphrase)
      in pbkdf2_hmac M ''sha512'' mnemonic_bytes salt 2048)"

section \<open>class ValidatorKey\<close>

text \<open>The dictionary that \<open>generate_from_seed\<close> returns, with its two keys
  \<open>'private_key'\<close> and \<open>'public_key'\<close> as fields.\<close>

record key_pair =
  keys_private_key :: bytes
  keys_public_key :: bytes

definition generate_from_seed :: "modules \<Rightarrow> bytes \<Rightarrow> error + key_pair" where
  "generate_from_seed M seed =
     (let key_material = sha256 M seed
      in if HAS_NACL M
         then (case SigningKey M key_material of
                 Inl e \<Rightarrow> Inl e
               | Inr signing_key \<Rightarrow>
                   let private_key = key_bytes signing_key;
                       public_key = verify_key signing_key;
                       private_key_full = private_key @ public_key
                   in Inr \<lparr>keys_private_key = private_key_full, keys_public_key = public_key\<rparr>)
         else (case from_private_bytes M key_material of
                 Inl e \<Rightarrow> Inl e
               | Inr public_key \<Rightarrow>
                   let private_key_full = key_material @ public_key
                   in Inr \<lparr>keys_private_key = private_key_full, keys_public_key = public_key\<rparr>))"

text \<open>\<open>generate_address\<close> has no statement that raises; its result is written as a sum
  so that a failure could be told from an address.\<close>

definition generate_address :: "modules \<Rightarrow> bytes \<Rightarrow> error + string" where
  "generate_address M public_key =
     (let hash_result = sha256 M public_key;
          address = take 20 hash_result
      in Inr (upper (hex address)))"

record typed_key =
  key_type :: string
  key_value :: string

record validator_record =
  address :: string
  pub_key :: typed_key
  priv_key :: typed_key

definition create_priv_validator_key :: "modules \<Rightarrow> bytes \<Rightarrow> bytes \<Rightarrow> error + validator_record" where
  "create_priv_validator_key M private_key public_key =
     (case generate_address M public_key of
        Inl e \<Rightarrow> Inl e
      | Inr addr \<Rightarrow>
          Inr \<lparr>address = addr,
               pub_key = \<lparr>key_type = ''tendermint/PubKeyEd25519'', key_value = b64encode M public_key\<rparr>,
               priv_key = \<lparr>key_type = ''tendermint/PrivKeyEd25519'', key_value = b64encode M private_key\<rparr>\<rparr>)"

text \<open>The derivation steps of \<open>main\<close> after the mnemonic is known (seed, key pair,
  record), with the passphrase that \<open>main\<close> leaves at its default as a parameter.\<close>

definition derive_validator_key :: "modules \<Rightarrow> BIP39 \<Rightarrow> string \<Rightarrow> string \<Rightarrow> error + validator_record" where
  "derive_validator_key M bip39 mnemonic passphrase =
     (let seed = mnemonic_to_seed M bip39 mnemonic passphrase
      in (case generate_from_seed M seed of
            Inl e \<Rightarrow> Inl e
          | Inr keys \<Rightarrow> create_priv_validator_key M (keys_private_key keys) (keys_public_key keys)))"

section \<open>Notions of the specification\<close>

text \<open>
  The program works on binary numerals written as text. The specification speaks of bit
  strings; the definitions of this section follow its words, on lists of booleans, and
  the theorems relate the program to them.
\<close>

text \<open>The text of a bit string: one character \<open>0\<close> or \<open>1\<close> for each bit.\<close>

definition bit_text :: "bool list \<Rightarrow> string" where
  "bit_text bs = map (\<lambda>b. if b then CHR ''1'' else CHR ''0'') bs"

text \<open>The big-endian, zero-padded representation of \<open>n\<close> on \<open>w\<close> bits, and the number a
  bit string stands for.\<close>

fun bits_be :: "nat \<Rightarrow> nat \<Rightarrow> bool list" where
  "bits_be 0 n = []"
| "bits_be (Suc w) n = bits_be w (n div 2) @ [odd n]"

definition bits_nat :: "bool list \<Rightarrow> nat" where
  "bits_nat bs = foldl (\<lambda>acc b. 2 * acc + (if b then 1 else 0)) 0 bs"

text \<open>The bits of a byte sequence: eight per byte, in order.\<close>

definition bytes_bits :: "bytes \<Rightarrow> bool list" where
  "bytes_bits bs = concat (map (\<lambda>b. bits_be 8 (unat b)) bs)"

text \<open>The consecutive groups of \<open>k\<close> elements of a list.\<close>

fun groups :: "nat \<Rightarrow> 'a list \<Rightarrow> 'a list list" where
  "groups k xs = (if k = 0 \<or> xs = [] then [] else take k xs # groups k (drop k xs))"

declare groups.simps [simp del]

text \<open>The bytes of a bit string: one per group of eight bits.\<close>

definition bits_bytes :: "bool list \<Rightarrow> bytes" where
  "bits_bytes bs = map (\<lambda>g. of_nat (bits_nat g)) (groups 8 bs)"

text \<open>A word without whitespace: what \<open>split\<close> returns as one token.\<close>

definition no_space :: "string \<Rightarrow> bool" where
  "no_space w = (\<forall>c \<in> set w. \<not> is_space c)"

text \<open>Encoding: the entropy bits followed by the first \<open>entropyBits/32\<close> bits of the
  SHA-256 of the entropy, and the word of each group of 11 bits.\<close>

definition mnemonic_bits :: "modules \<Rightarrow> bytes \<Rightarrow> bool list" where
  "mnemonic_bits M entropy =
     bytes_bits entropy @ take (length entropy * 8 div 32) (bytes_bits (sha256 M entropy))"

definition mnemonic_words :: "modules \<Rightarrow> string list \<Rightarrow> bytes \<Rightarrow> string list" where
  "mnemonic_words M wl entropy = map (\<lambda>g. wl ! bits_nat g) (groups 11 (mnemonic_bits M entropy))"

text \<open>Validation: the bit string of the word indices, 11 bits each; its last
  \<open>wordCount/3\<close> bits are the checksum and the rest is the entropy; the checksum must
  be the first \<open>wordCount/3\<close> bits of the SHA-256 of the entropy bytes.\<close>

definition checksum_ok :: "modules \<Rightarrow> nat list \<Rightarrow> bool" where
  "checksum_ok M indices =
     (let bits = concat (map (bits_be 11) indices);
          checksum_count = length indices div 3;
          entropy_bits = take (length bits - checksum_count) bits;
          checksum_bits = drop (length bits - checksum_count) bits
      in checksum_bits = take checksum_count (bytes_bits (sha256 M (bits_bytes entropy_bits))))"

definition mnemonic_valid :: "modules \<Rightarrow> BIP39 \<Rightarrow> string list \<Rightarrow> bool" where
  "mnemonic_valid M self words =
     (length words \<in> set [12, 15, 18, 21, 24] \<and>
      (\<forall>w \<in> set words. w \<in> set (wordlist self)) \<and>
      checksum_ok M (map (\<lambda>w. the (wordlist_dict self w)) words))"

text \<open>The statements of \<open>validate_mnemonic\<close> after the index lookup, under a name of
  their own for the proofs (\<open>validate_mnemonic_unfold\<close> below puts them back).\<close>

definition validate_tail :: "modules \<Rightarrow> nat \<Rightarrow> nat list \<Rightarrow> error + bool" where
  "validate_tail M word_count indices =
     (let bits = concat (map (\<lambda>idx. zfill 11 (drop 2 (bin idx))) indices);
          checksum_length = word_count div 3;
          entropy_bits = slice_upto_neg checksum_length bits;
          checksum_bits = slice_from_neg checksum_length bits
      in (case int_base2 entropy_bits of
            Inl e \<Rightarrow> Inl e
          | Inr n \<Rightarrow>
              (case to_bytes n (length entropy_bits div 8) of
                 Inl e \<Rightarrow> Inl e
               | Inr entropy \<Rightarrow>
                   let expected_checksum =
                         zfill 256 (drop 2 (bin (int_from_bytes (sha256 M entropy))));
                       expected_checksum = take checksum_length expected_checksum
                   in Inr (checksum_bits = expected_checksum))))"

text \<open>Uppercase hexadecimal text: two digits per byte.\<close>

definition hex_upper :: "bytes \<Rightarrow> string" where
  "hex_upper bs =
     concat (map (\<lambda>b. [''0123456789ABCDEF'' ! (unat b div 16), ''0123456789ABCDEF'' ! (unat b mod 16)]) bs)"

text \<open>The public key that the active signature library derives from a 32-byte ed25519
  seed.\<close>

definition derived_public_key :: "modules \<Rightarrow> bytes \<Rightarrow> error + bytes" where
  "derived_public_key M key_material =
     (if HAS_NACL M
      then (case SigningKey M key_material of Inl e \<Rightarrow> Inl e | Inr sk \<Rightarrow> Inr (verify_key sk))
      else from_private_bytes M key_material)"

text \<open>PBKDF2 tells the password \<open>m\<close> from \<open>m\<close> followed by one space (it does not
  collide on the two).\<close>

definition space_sensitive :: "modules \<Rightarrow> string \<Rightarrow> bool" where
  "space_sensitive M m =
     (pbkdf2_hmac M ''sha512'' (encode_utf8 (m @ '' '')) (encode_utf8 ''mnemonic'') 2048
        \<noteq> pbkdf2_hmac M ''sha512'' (encode_utf8 m) (encode_utf8 ''mnemonic'') 2048)"

section \<open>Stand-ins for the external inputs\<close>

text \<open>
  The theorems hold for every word list file and all library functions that meet their
  assumptions. To show that the assumptions can be met, they are also instantiated on
  the inputs of this section: a word list whose word number \<open>i\<close> is the numeral of \<open>i\<close>
  on 11 binary digits, written one word per line, and library functions that are simple
  to compute (a digest that repeats the length of its input, a public key that adds one
  to every byte of the seed).
\<close>

definition binary_wordlist :: "string list" where
  "binary_wordlist = map (\<lambda>i. bit_text (bits_be 11 i)) [0 ..< 2048]"

definition binary_wordlist_file :: "string list option" where
  "binary_wordlist_file = Some (map (\<lambda>w. w @ [CHR 0x0A]) binary_wordlist)"

definition binary_bip39 :: BIP39 where
  "binary_bip39 = \<lparr>wordlist = binary_wordlist, wordlist_dict = dict_of_wordlist binary_wordlist\<rparr>"

definition length_digest :: "nat \<Rightarrow> bytes \<Rightarrow> bytes" where
  "length_digest n x = replicate n (of_nat (length x))"

definition next_bytes :: "bytes \<Rightarrow> bytes" where
  "next_bytes k = map (\<lambda>b. b + 1) k"

definition toy_modules :: modules where
  "toy_modules =
     \<lparr>sha256 = length_digest 32,
      pbkdf2_hmac = (\<lambda>name password salt iterations. length_digest 64 password),
      token_bytes = (\<lambda>n. replicate n 0),
      HAS_NACL = True,
      SigningKey = (\<lambda>k. if length k = 32 then Inr \<lparr>key_bytes = k, verify_key = next_bytes k\<rparr> else Inl ValueError),
      from_private_bytes = (\<lambda>k. if length k = 32 then Inr (next_bytes k) else Inl ValueError),
      b64encode = hex\<rparr>"

section \<open>Lemmas\<close>

subsection \<open>Binary text\<close>

lemma bit_text_Nil [simp]: "bit_text [] = []"
  by (simp add: bit_text_def)

lemma pow256: "(256::nat) ^ n = 2 ^ (8 * n)"
  by (simp add: power_mult)

lemma length_bit_text [simp]: "length (bit_text bs) = length bs"
  by (simp add: bit_text_def)

lemma bit_text_append [simp]: "bit_text (xs @ ys) = bit_text xs @ bit_text ys"
  by (simp add: bit_text_def)

lemma bit_text_take: "take n (bit_text xs) = bit_text (take n xs)"
  by (simp add: bit_text_def take_map)

lemma bit_text_drop: "drop n (bit_text xs) = bit_text (drop n xs)"
  by (simp add: bit_text_def drop_map)

lemma bit_text_concat: "concat (map bit_text xss) = bit_text (concat xss)"
  by (induction xss) auto

lemma bit_text_inj: "bit_text xs = bit_text ys \<longleftrightarrow> xs = ys"
proof -
  have "inj (\<lambda>b. if b then CHR ''1'' else CHR ''0'')"
    by (auto simp: inj_def split: if_splits)
  then show ?thesis
    unfolding bit_text_def by (simp add: inj_map_eq_map)
qed

lemma list_all_bit_text [simp]: "list_all is_bit_char (bit_text bs)"
  by (induction bs) (auto simp: bit_text_def is_bit_char_def)

lemma length_bits_be [simp]: "length (bits_be w n) = w"
  by (induction w arbitrary: n) auto

lemma bits_be_zero: "bits_be w 0 = replicate w False"
  by (induction w) (auto simp: replicate_append_same)

lemma bin_digits_pad:
  "n < 2 ^ w \<Longrightarrow> 0 < w \<Longrightarrow> length (bin_digits n) \<le> w \<and>
     replicate (w - length (bin_digits n)) CHR ''0'' @ bin_digits n = bit_text (bits_be w n)"
proof (induction w arbitrary: n)
  case 0 then show ?case by simp
next
  case (Suc w)
  show ?case
  proof (cases "n < 2")
    case True
    then have "n div 2 = 0" by simp
    with True show ?thesis
      by (auto simp: bin_digits.simps[of n] bit_text_def bits_be_zero bit_char_def)
  next
    case False
    then have w: "0 < w" using Suc.prems by (cases w) auto
    have "n div 2 < 2 ^ w" using Suc.prems by auto
    from Suc.IH[OF this w] False show ?thesis
      apply (simp add: bin_digits.simps[of n] bit_text_def bit_char_def Suc_diff_le)
      by presburger
  qed
qed

lemma bin_digits_bits: "list_all is_bit_char (bin_digits n) \<and> bin_digits n \<noteq> []"
proof (induction n rule: bin_digits.induct)
  case (1 n)
  then show ?case
    by (cases "n < 2") (auto simp: bin_digits.simps[of n] is_bit_char_def bit_char_def)
qed

lemma zfill_bin:
  assumes "n < 2 ^ w" "0 < w"
  shows "zfill w (drop 2 (bin n)) = bit_text (bits_be w n)"
proof -
  obtain c cs where ccs: "bin_digits n = c # cs"
    using bin_digits_bits[of n] by (cases "bin_digits n") auto
  then have c: "c \<noteq> CHR ''+''" "c \<noteq> CHR ''-''"
    using bin_digits_bits[of n] by (auto simp: is_bit_char_def)
  from bin_digits_pad[OF assms] have
    le: "length (bin_digits n) \<le> w" and
    pad: "replicate (w - length (bin_digits n)) CHR ''0'' @ bin_digits n = bit_text (bits_be w n)"
    by auto
  show ?thesis
  proof (cases "w \<le> length (bin_digits n)")
    case True
    with le pad show ?thesis by (simp add: zfill_def bin_def)
  next
    case False
    with pad ccs c show ?thesis by (simp add: zfill_def bin_def)
  qed
qed

subsection \<open>Integers and bits\<close>

lemma bits_nat_snoc [simp]: "bits_nat (bs @ [b]) = 2 * bits_nat bs + (if b then 1 else 0)"
  by (simp add: bits_nat_def)

lemma bits_nat_Nil [simp]: "bits_nat [] = 0"
  by (simp add: bits_nat_def)

lemma bits_nat_less: "bits_nat bs < 2 ^ length bs"
  by (induction bs rule: rev_induct) auto

lemma bits_nat_bits_be: "n < 2 ^ w \<Longrightarrow> bits_nat (bits_be w n) = n"
proof (induction w arbitrary: n)
  case 0 then show ?case by simp
next
  case (Suc w)
  then have "n div 2 < 2 ^ w" by auto
  from Suc.IH[OF this] show ?case by auto
qed

lemma bits_be_bits_nat: "bits_be (length bs) (bits_nat bs) = bs"
  by (induction bs rule: rev_induct) auto

lemma bits_nat_append: "bits_nat (xs @ ys) = bits_nat xs * 2 ^ length ys + bits_nat ys"
  by (induction ys rule: rev_induct) (auto simp: append_assoc[symmetric] algebra_simps simp del: append_assoc)

lemma bits_value_bit_text [simp]: "bits_value (bit_text bs) = bits_nat bs"
proof -
  have "foldl (\<lambda>acc c. 2 * acc + (if c = CHR ''1'' then 1 else 0)) a (bit_text bs)
      = foldl (\<lambda>acc b. 2 * acc + (if b then 1 else 0)) a bs" for a :: nat
    by (induction bs arbitrary: a) (auto simp: bit_text_def)
  then show ?thesis by (simp add: bits_value_def bits_nat_def)
qed

lemma int_base2_bit_text: "bs \<noteq> [] \<Longrightarrow> int_base2 (bit_text bs) = Inr (bits_nat bs)"
  by (simp add: int_base2_def) (simp add: bit_text_def)

lemma bits_be_append:
  "c < 2 ^ v \<Longrightarrow> bits_be (w + v) (a * 2 ^ v + c) = bits_be w a @ bits_be v c"
proof (induction v arbitrary: c)
  case 0 then show ?case by simp
next
  case (Suc v)
  then have c2: "c div 2 < 2 ^ v" by auto
  have "(a * 2 ^ Suc v + c) div 2 = a * 2 ^ v + c div 2" by simp
  moreover have "odd (a * 2 ^ Suc v + c) = odd c" by simp
  ultimately show ?case using Suc.IH[OF c2] by simp
qed

subsection \<open>Bytes\<close>

lemma int_from_bytes_Nil [simp]: "int_from_bytes [] = 0"
  by (simp add: int_from_bytes_def)

lemma int_from_bytes_snoc [simp]: "int_from_bytes (bs @ [b]) = 256 * int_from_bytes bs + unat b"
  by (simp add: int_from_bytes_def)

lemma unat_byte_less: "unat (b :: byte) < 256"
  using unsigned_less[of b, where 'a = nat] by simp

lemma int_from_bytes_less: "int_from_bytes bs < 256 ^ length bs"
proof (induction bs rule: rev_induct)
  case Nil then show ?case by simp
next
  case (snoc b bs)
  have "unat b < 256" by (rule unat_byte_less)
  with snoc show ?case by simp
qed

lemma bytes_bits_Nil [simp]: "bytes_bits [] = []"
  by (simp add: bytes_bits_def)

lemma bytes_bits_append [simp]: "bytes_bits (xs @ ys) = bytes_bits xs @ bytes_bits ys"
  by (simp add: bytes_bits_def)

lemma length_bytes_bits [simp]: "length (bytes_bits bs) = 8 * length bs"
  by (induction bs) (auto simp: bytes_bits_def)

lemma bits_be_int_from_bytes: "bits_be (8 * length bs) (int_from_bytes bs) = bytes_bits bs"
proof (induction bs rule: rev_induct)
  case Nil then show ?case by simp
next
  case (snoc b bs)
  have "bits_be (8 * length bs + 8) (int_from_bytes bs * 2 ^ 8 + unat b)
      = bits_be (8 * length bs) (int_from_bytes bs) @ bits_be 8 (unat b)"
    by (rule bits_be_append) (use unat_byte_less[of b] in simp)
  with snoc show ?case by (simp add: bytes_bits_def mult.commute add.commute)
qed

lemma bits_nat_bytes_bits: "bits_nat (bytes_bits bs) = int_from_bytes bs"
proof -
  have "int_from_bytes bs < 2 ^ (8 * length bs)"
    using int_from_bytes_less[of bs] by (simp add: pow256)
  from bits_nat_bits_be[OF this] show ?thesis by (simp add: bits_be_int_from_bytes)
qed

lemma zfill_bin_bytes:
  "bs \<noteq> [] \<Longrightarrow> zfill (length bs * 8) (drop 2 (bin (int_from_bytes bs))) = bit_text (bytes_bits bs)"
proof -
  assume ne: "bs \<noteq> []"
  have "int_from_bytes bs < 2 ^ (length bs * 8)"
    using int_from_bytes_less[of bs] by (simp add: pow256 mult.commute)
  from zfill_bin[OF this] ne show ?thesis
    using bits_be_int_from_bytes[of bs] by (simp add: mult.commute)
qed

lemma be_bytes_int_from_bytes: "be_bytes (length bs) (int_from_bytes bs) = bs"
proof (induction bs rule: rev_induct)
  case Nil then show ?case by simp
next
  case (snoc b bs)
  have "unat b < 256" by (rule unat_byte_less)
  then have "(256 * int_from_bytes bs + unat b) div 256 = int_from_bytes bs"
       "(256 * int_from_bytes bs + unat b) mod 256 = unat b" by auto
  with snoc show ?case by simp
qed

subsection \<open>Groups\<close>

lemma groups_Nil [simp]: "groups k [] = []"
  by (simp add: groups.simps)

lemma groups_0 [simp]: "groups 0 xs = []"
  by (simp add: groups.simps)

lemma groups_step: "0 < k \<Longrightarrow> xs \<noteq> [] \<Longrightarrow> groups k xs = take k xs # groups k (drop k xs)"
  by (simp add: groups.simps[of k xs])

lemma concat_groups: "0 < k \<Longrightarrow> concat (groups k xs) = xs"
proof (induction k xs rule: groups.induct)
  case (1 k xs)
  then show ?case by (cases "xs = []") (auto simp: groups_step)
qed

lemma groups_append:
  "0 < k \<Longrightarrow> length xs = k * m \<Longrightarrow> groups k (xs @ ys) = groups k xs @ groups k ys"
proof (induction m arbitrary: xs)
  case 0 then show ?case by simp
next
  case (Suc m)
  then have ne: "xs \<noteq> []" "k \<le> length xs" by auto
  have len: "length (drop k xs) = k * m" using Suc.prems by simp
  from Suc.IH[OF Suc.prems(1) len] ne Suc.prems(1) show ?case
    by (simp add: groups_step)
qed

lemma groups_single: "0 < k \<Longrightarrow> length xs = k \<Longrightarrow> groups k xs = [xs]"
  using groups_step[of k xs] by auto

lemma groups_concat:
  "0 < k \<Longrightarrow> \<forall>g \<in> set gs. length g = k \<Longrightarrow> groups k (concat gs) = gs"
proof (induction gs)
  case Nil then show ?case by simp
next
  case (Cons g gs)
  then have "groups k (g @ concat gs) = groups k g @ groups k (concat gs)"
    using groups_append[of k g 1 "concat gs"] by simp
  with Cons show ?case by (simp add: groups_single)
qed

lemma length_groups: "0 < k \<Longrightarrow> length xs = k * m \<Longrightarrow> length (groups k xs) = m"
proof (induction m arbitrary: xs)
  case 0 then show ?case by simp
next
  case (Suc m)
  then have ne: "xs \<noteq> []" by auto
  have len: "length (drop k xs) = k * m" using Suc.prems by simp
  from Suc.IH[OF Suc.prems(1) len] ne Suc.prems(1) show ?case
    by (simp add: groups_step)
qed

lemma groups_lengths:
  "0 < k \<Longrightarrow> length xs = k * m \<Longrightarrow> \<forall>g \<in> set (groups k xs). length g = k"
proof (induction m arbitrary: xs)
  case 0 then show ?case by simp
next
  case (Suc m)
  then have ne: "xs \<noteq> []" "k \<le> length xs" by auto
  have len: "length (drop k xs) = k * m" using Suc.prems by simp
  have step: "groups k xs = take k xs # groups k (drop k xs)"
    using groups_step[of k xs] ne Suc.prems(1) by simp
  have "length (take k xs) = k" using ne by simp
  with Suc.IH[OF Suc.prems(1) len] show ?case
    unfolding step by (metis set_ConsD)
qed

lemma range_step_rec:
  "0 < k \<Longrightarrow> 0 < n \<Longrightarrow> range_step n k = 0 # map (\<lambda>i. i + k) (range_step (n - k) k)"
proof -
  assume k: "0 < k" and n: "0 < n"
  have "(n + k - 1) div k = Suc ((n - k + k - 1) div k)"
  proof (cases "k \<le> n")
    case True
    then have e: "n + k - 1 = (n - 1) + k" using k by simp
    have "(n - 1 + k) div k = (n - 1) div k + 1" using div_add_self2[of k "n - 1"] k by simp
    with True e show ?thesis by simp
  next
    case False
    have "k * 1 \<le> n + k - 1" using n by simp
    moreover have "n + k - 1 < k * Suc 1" using False by simp
    ultimately have "(n + k - 1) div k = 1" by (rule div_nat_eqI)
    moreover from False have "(n - k + k - 1) div k = 0" using k by simp
    ultimately show ?thesis by simp
  qed
  moreover have "[0..<Suc m] = 0 # map Suc [0..<m]" for m
    by (metis upt_conv_Cons map_Suc_upt zero_less_Suc)
  ultimately show ?thesis
    by (simp add: range_step_def comp_def del: upt_Suc)
qed

lemma range_step_0 [simp]: "0 < k \<Longrightarrow> range_step 0 k = []"
  by (simp add: range_step_def)

lemma groups_range_step:
  "0 < k \<Longrightarrow> groups k xs = map (\<lambda>i. take k (drop i xs)) (range_step (length xs) k)"
proof (induction k xs rule: groups.induct)
  case (1 k xs)
  show ?case
  proof (cases "xs = []")
    case True with 1 show ?thesis by simp
  next
    case False
    with 1 have IH: "groups k (drop k xs) = map (\<lambda>i. take k (drop i (drop k xs))) (range_step (length (drop k xs)) k)"
      by simp
    from False 1 IH show ?thesis
      by (simp add: groups_step range_step_rec comp_def add.commute)
  qed
qed

lemma bits_bytes_bytes_bits: "bits_bytes (bytes_bits bs) = bs"
proof -
  have "groups 8 (bytes_bits bs) = map (\<lambda>b. bits_be 8 (unat b)) bs"
    unfolding bytes_bits_def by (rule groups_concat) auto
  moreover have "of_nat (bits_nat (bits_be 8 (unat b))) = b" for b :: byte
    using bits_nat_bits_be[of "unat b" 8] unat_byte_less[of b] by simp
  ultimately show ?thesis by (simp add: bits_bytes_def comp_def)
qed

lemma be_bytes_bits_nat:
  "length bs = 8 * len \<Longrightarrow> be_bytes len (bits_nat bs) = bits_bytes bs"
proof (induction len arbitrary: bs)
  case 0 then show ?case by (simp add: bits_bytes_def)
next
  case (Suc len)
  define front where "front = take (8 * len) bs"
  define lastb where "lastb = drop (8 * len) bs"
  have bs: "bs = front @ lastb" and lf: "length front = 8 * len" and lb: "length lastb = 8"
    using Suc.prems by (auto simp: front_def lastb_def)
  have v: "bits_nat bs = bits_nat front * 256 + bits_nat lastb"
    by (simp add: bs bits_nat_append lb)
  have bl: "bits_nat lastb < 256" using bits_nat_less[of lastb] lb by simp
  then have d: "bits_nat bs div 256 = bits_nat front" "bits_nat bs mod 256 = bits_nat lastb"
    using v by auto
  have g: "groups 8 bs = groups 8 front @ [lastb]"
    using groups_append[of 8 front len lastb] lf lb by (simp add: bs groups_single)
  show ?case using Suc.IH[OF lf] d g by (simp add: bits_bytes_def)
qed

subsection \<open>split, strip and join\<close>

lemma split_from_word: "no_space w \<Longrightarrow> split_from cur (w @ rest) = split_from (cur @ w) rest"
  by (induction w arbitrary: cur) (auto simp: no_space_def)

lemma split_from_spaces:
  "\<forall>c \<in> set t. is_space c \<Longrightarrow> split_from cur t = split_from cur []"
  by (induction t arbitrary: cur) auto

lemma split_from_trailing:
  "\<forall>c \<in> set t. is_space c \<Longrightarrow> split_from cur (s @ t) = split_from cur s"
proof (induction s arbitrary: cur)
  case Nil then show ?case using split_from_spaces[of t cur] by simp
next
  case (Cons c s) then show ?case by simp
qed

lemma split_from_leading: "split_from [] (dropWhile is_space s) = split_from [] s"
  by (induction s) auto

lemma split_strip: "split (strip s) = split s"
proof -
  define u where "u = dropWhile is_space s"
  have "u = rev (dropWhile is_space (rev u)) @ rev (takeWhile is_space (rev u))"
    by (metis rev_append rev_rev_ident takeWhile_dropWhile_id)
  moreover have "\<forall>c \<in> set (rev (takeWhile is_space (rev u))). is_space c"
    by (auto dest: set_takeWhileD)
  ultimately have "split_from [] (rev (dropWhile is_space (rev u))) = split_from [] u"
    using split_from_trailing[of "rev (takeWhile is_space (rev u))" "[]" "rev (dropWhile is_space (rev u))"]
    by simp
  then show ?thesis
    by (simp add: split_def strip_def u_def split_from_leading)
qed

lemma split_join:
  "\<forall>w \<in> set ws. w \<noteq> [] \<and> no_space w \<Longrightarrow> split (join '' '' ws) = ws"
proof (induction "'' ''" ws rule: join.induct)
  case 1 then show ?case by (simp add: split_def)
next
  case (2 x)
  then show ?case using split_from_word[of x "[]" "[]"] by (simp add: split_def)
next
  case (3 x y ys)
  have sp: "is_space CHR '' ''" by (simp add: is_space_def)
  from 3 have "split_from [] (x @ '' '' @ join '' '' (y # ys)) = x # split_from [] (join '' '' (y # ys))"
    using split_from_word[of x "[]" "'' '' @ join '' '' (y # ys)"] sp by simp
  with 3 show ?case by (simp add: split_def)
qed

lemma split_trailing_space: "split (m @ '' '') = split m"
proof -
  have "\<forall>c \<in> set '' ''. is_space c" by (simp add: is_space_def)
  from split_from_trailing[OF this] show ?thesis by (simp add: split_def)
qed

lemma encode_utf8_trailing_space: "encode_utf8 (m @ '' '') = encode_utf8 m @ [32]"
  by (simp add: encode_utf8_def utf8_char_def)

subsection \<open>The word dictionary\<close>

lemma fold_dict_notin:
  assumes f: "\<And>i w d. f (i, w) d = d(w \<mapsto> i)"
  shows "w \<notin> set wl \<Longrightarrow> fold f (enumerate n wl) m w = m w"
  by (induction wl arbitrary: n m) (auto simp: f)

lemma fold_dict_distinct:
  assumes f: "\<And>i w d. f (i, w) d = d(w \<mapsto> i)"
  shows "distinct wl \<Longrightarrow> k < length wl \<Longrightarrow> fold f (enumerate n wl) m (wl ! k) = Some (n + k)"
proof (induction wl arbitrary: n m k)
  case Nil then show ?case by simp
next
  case (Cons x xs)
  show ?case
  proof (cases k)
    case 0
    with Cons.prems show ?thesis by (simp add: f fold_dict_notin[OF f])
  next
    case (Suc k')
    have "fold f (enumerate (Suc n) xs) (m(x \<mapsto> n)) (xs ! k') = Some (Suc n + k')"
      by (rule Cons.IH) (use Cons.prems Suc in auto)
    then show ?thesis by (simp add: f Suc)
  qed
qed

lemma fold_dict_Some:
  assumes f: "\<And>i w d. f (i, w) d = d(w \<mapsto> i)"
  shows "fold f (enumerate n wl) m w = Some i \<Longrightarrow>
     (n \<le> i \<and> i < n + length wl \<and> wl ! (i - n) = w) \<or> m w = Some i"
proof (induction wl arbitrary: n m)
  case Nil then show ?case by simp
next
  case (Cons x xs)
  from Cons.prems have "fold f (enumerate (Suc n) xs) (m(x \<mapsto> n)) w = Some i"
    by (simp add: f)
  from Cons.IH[OF this] show ?case
    by (auto simp: Suc_diff_le split: if_splits)
qed

lemma fold_dict_in:
  assumes f: "\<And>i w d. f (i, w) d = d(w \<mapsto> i)"
  shows "w \<in> set wl \<Longrightarrow> fold f (enumerate n wl) m w \<noteq> None"
proof (induction wl arbitrary: n m)
  case Nil then show ?case by simp
next
  case (Cons x xs)
  show ?case
  proof (cases "w \<in> set xs")
    case True with Cons.IH show ?thesis by simp
  next
    case False
    with Cons.prems have "w = x" by simp
    with False show ?thesis by (simp add: f fold_dict_notin[OF f])
  qed
qed

lemma dict_of_wordlist_Some:
  "dict_of_wordlist wl w = Some i \<Longrightarrow> i < length wl \<and> wl ! i = w"
  using fold_dict_Some[of "\<lambda>(idx, word) d. d(word \<mapsto> idx)" 0 wl Map.empty w i]
  by (simp add: dict_of_wordlist_def)

lemma dict_of_wordlist_None: "dict_of_wordlist wl w = None \<longleftrightarrow> w \<notin> set wl"
  using fold_dict_in[of "\<lambda>(idx, word) d. d(word \<mapsto> idx)" w wl 0 Map.empty]
    fold_dict_notin[of "\<lambda>(idx, word) d. d(word \<mapsto> idx)" w wl 0 Map.empty]
  by (auto simp: dict_of_wordlist_def)

lemma dict_of_wordlist_nth:
  "distinct wl \<Longrightarrow> k < length wl \<Longrightarrow> dict_of_wordlist wl (wl ! k) = Some k"
  using fold_dict_distinct[of "\<lambda>(idx, word) d. d(word \<mapsto> idx)" wl k 0 Map.empty]
  by (simp add: dict_of_wordlist_def)

subsection \<open>The constructor and the index lookup\<close>

lemma init_BIP39_Inr:
  assumes "init_BIP39 file = Inr self"
  shows "length (wordlist self) = 2048"
    and "wordlist_dict self = dict_of_wordlist (wordlist self)"
    and "\<forall>w \<in> set (wordlist self). w \<noteq> []"
  using assms
  by (auto simp: init_BIP39_def load_wordlist_def Let_def split: option.splits sum.splits if_splits)

lemma lookup_all_Inr:
  "lookup_all d ws = Inr idxs \<longleftrightarrow> map d ws = map Some idxs"
proof (induction ws arbitrary: idxs)
  case Nil then show ?case by auto
next
  case (Cons w ws)
  show ?case
  proof (cases idxs)
    case Nil then show ?thesis by (auto split: option.splits sum.splits)
  next
    case (Cons i js)
    with Cons.IH[of js] show ?thesis by (auto split: option.splits sum.splits)
  qed
qed

lemma lookup_all_Inl:
  "lookup_all d ws = Inl e \<longleftrightarrow> e = KeyError \<and> (\<exists>w \<in> set ws. d w = None)"
  by (induction ws) (auto split: option.splits sum.splits)

subsection \<open>Encoding\<close>

lemma range_step_less: "0 < k \<Longrightarrow> i \<in> set (range_step n k) \<Longrightarrow> i < n"
proof -
  assume k: "0 < k" and "i \<in> set (range_step n k)"
  then obtain j where j: "j < (n + k - 1) div k" and i: "i = j * k"
    by (auto simp: range_step_def)
  from j have "Suc j \<le> (n + k - 1) div k" by simp
  then have "Suc j * k \<le> n + k - 1" using k by (simp add: less_eq_div_iff_mult_less_eq)
  then show "i < n" using i k by simp
qed

lemma words_loop_bit_text:
  "\<forall>i \<in> set js. i < length B \<Longrightarrow> 2048 \<le> length (wordlist self) \<Longrightarrow>
     words_loop self (bit_text B) js acc
       = Inr (acc @ map (\<lambda>i. wordlist self ! bits_nat (take 11 (drop i B))) js)"
proof (induction js arbitrary: acc)
  case Nil then show ?case by simp
next
  case (Cons i js)
  let ?g = "take 11 (drop i B)"
  have ne: "?g \<noteq> []" using Cons.prems by simp
  have "bits_nat ?g < 2 ^ length ?g" by (rule bits_nat_less)
  also have "\<dots> \<le> 2 ^ 11" by (rule power_increasing) auto
  finally have lt: "bits_nat ?g < length (wordlist self)" using Cons.prems by simp
  have "int_base2 (take 11 (drop i (bit_text B))) = Inr (bits_nat ?g)"
    using int_base2_bit_text[OF ne] by (simp add: bit_text_take bit_text_drop)
  with lt Cons show ?case by simp
qed

lemma allowed_entropy_length:
  "length (entropy :: bytes) \<in> set [16, 20, 24, 28, 32] \<Longrightarrow>
     \<exists>k. length entropy = 4 * k \<and> 4 \<le> k \<and> k \<le> 8"
  by auto

lemma length_mnemonic_bits:
  assumes "hashlib_ok M" "length entropy = 4 * k" "k \<le> 8"
  shows "length (mnemonic_bits M entropy) = 11 * (3 * k)"
  using assms by (simp add: mnemonic_bits_def hashlib_ok_def)

lemma entropy_to_mnemonic_words:
  assumes wl: "length (wordlist self) = 2048"
    and h: "hashlib_ok M"
    and len: "length entropy \<in> set [16, 20, 24, 28, 32]"
  shows "entropy_to_mnemonic M self entropy
           = Inr (join '' '' (mnemonic_words M (wordlist self) entropy))"
proof -
  from len have ne: "entropy \<noteq> []" by auto
  have sne: "sha256 M entropy \<noteq> []" and sl: "length (sha256 M entropy) = 32"
    using h by (auto simp: hashlib_ok_def dest: spec[of _ entropy])
  have e: "zfill (length entropy * 8) (drop 2 (bin (int_from_bytes entropy)))
             = bit_text (bytes_bits entropy)"
    by (rule zfill_bin_bytes[OF ne])
  have c: "zfill 256 (drop 2 (bin (int_from_bytes (sha256 M entropy))))
             = bit_text (bytes_bits (sha256 M entropy))"
    using zfill_bin_bytes[OF sne] sl by simp
  have bits: "bit_text (bytes_bits entropy)
                @ take (length entropy div 4) (bit_text (bytes_bits (sha256 M entropy)))
              = bit_text (mnemonic_bits M entropy)"
  proof -
    have "length entropy * 8 div 32 = length entropy div 4" by simp
    then show ?thesis by (simp add: mnemonic_bits_def bit_text_take)
  qed
  have loop: "words_loop self (bit_text (mnemonic_bits M entropy))
                (range_step (length (mnemonic_bits M entropy)) 11) []
              = Inr (mnemonic_words M (wordlist self) entropy)"
  proof -
    have "\<forall>i \<in> set (range_step (length (mnemonic_bits M entropy)) 11).
            i < length (mnemonic_bits M entropy)"
      using range_step_less[of 11 _ "length (mnemonic_bits M entropy)"] by auto
    from words_loop_bit_text[OF this, of self "[]"] wl show ?thesis
      by (simp add: mnemonic_words_def groups_range_step comp_def)
  qed
  from len show ?thesis
    unfolding entropy_to_mnemonic_def Let_def e c bits
    by (simp add: loop)
qed

subsection \<open>Validation\<close>

lemma indices_bits:
  assumes "\<forall>i \<in> set indices. i < 2048"
  shows "concat (map (\<lambda>idx. zfill 11 (drop 2 (bin idx))) indices)
           = bit_text (concat (map (bits_be 11) indices))"
proof -
  have m: "map (\<lambda>idx. zfill 11 (drop 2 (bin idx))) indices = map (\<lambda>idx. bit_text (bits_be 11 idx)) indices"
    using assms by (intro map_cong refl zfill_bin) auto
  have c: "concat (map (\<lambda>idx. bit_text (bits_be 11 idx)) indices)
             = bit_text (concat (map (bits_be 11) indices))"
    using bit_text_concat[of "map (bits_be 11) indices"] by (simp add: comp_def)
  show ?thesis unfolding m by (rule c)
qed

lemma allowed_word_count:
  "n \<in> set [12, 15, 18, 21, 24] \<Longrightarrow> \<exists>k. n = 3 * k \<and> 4 \<le> k \<and> k \<le> (8::nat)"
  by auto

lemma validate_tail_checksum:
  assumes h: "hashlib_ok M"
    and n: "length indices = 3 * k" "4 \<le> k" "k \<le> 8"
    and lt: "\<forall>i \<in> set indices. i < 2048"
  shows "validate_tail M (3 * k) indices = Inr (checksum_ok M indices)"
proof -
  define B where "B = concat (map (bits_be 11) indices)"
  define E where "E = take (length B - k) B"
  define C where "C = drop (length B - k) B"
  have lB: "length B = 33 * k"
    using n(1) by (simp add: B_def length_concat comp_def sum_list_triv)
  have lE: "length E = 8 * (4 * k)" using lB by (simp add: E_def)
  have Ene: "E \<noteq> []" using lE n by auto
  have k0: "k \<noteq> 0" using n by simp
  have bits: "concat (map (\<lambda>idx. zfill 11 (drop 2 (bin idx))) indices) = bit_text B"
    unfolding B_def by (rule indices_bits[OF lt])
  have sE: "slice_upto_neg k (bit_text B) = bit_text E"
    using k0 by (simp add: slice_upto_neg_def E_def bit_text_take)
  have sC: "slice_from_neg k (bit_text B) = bit_text C"
    using k0 by (simp add: slice_from_neg_def C_def bit_text_drop)
  have i2: "int_base2 (bit_text E) = Inr (bits_nat E)"
    by (rule int_base2_bit_text[OF Ene])
  have "bits_nat E < 2 ^ length E" by (rule bits_nat_less)
  then have fit: "bits_nat E < 256 ^ (4 * k)" by (simp add: lE pow256)
  have tb: "to_bytes (bits_nat E) (length E div 8) = Inr (bits_bytes E)"
    using fit be_bytes_bits_nat[OF lE] by (simp add: to_bytes_def lE)
  have sne: "sha256 M x \<noteq> []" and sl: "length (sha256 M x) = 32" for x
    using h by (auto simp: hashlib_ok_def dest: spec[of _ x])
  have c: "zfill 256 (drop 2 (bin (int_from_bytes (sha256 M x)))) = bit_text (bytes_bits (sha256 M x))" for x
    using zfill_bin_bytes[OF sne[of x]] sl[of x] by simp
  have "checksum_ok M indices = (C = take k (bytes_bits (sha256 M (bits_bytes E))))"
    using n(1) by (simp add: checksum_ok_def Let_def B_def[symmetric] E_def C_def)
  moreover have "3 * k div 3 = k" by simp
  ultimately show ?thesis
    unfolding validate_tail_def Let_def bits
    by (simp add: sE sC i2 tb c bit_text_take bit_text_inj)
qed

lemma validate_mnemonic_unfold:
  "validate_mnemonic M self mnemonic =
     (let words = split (strip mnemonic)
      in if length words \<notin> set [12, 15, 18, 21, 24] then Inr False
         else (case lookup_all (wordlist_dict self) words of
                 Inl KeyError \<Rightarrow> Inr False
               | Inl e \<Rightarrow> Inl e
               | Inr indices \<Rightarrow> validate_tail M (length words) indices))"
  unfolding validate_mnemonic_def validate_tail_def by (rule refl)

lemma validate_mnemonic_valid:
  assumes wl: "length (wordlist self) = 2048"
    and d: "wordlist_dict self = dict_of_wordlist (wordlist self)"
    and h: "hashlib_ok M"
  shows "validate_mnemonic M self mnemonic = Inr (mnemonic_valid M self (split mnemonic))"
proof -
  define ws where "ws = split mnemonic"
  show ?thesis
  proof (cases "length ws \<in> set [12, 15, 18, 21, 24]")
    case False
    then show ?thesis
      by (simp add: validate_mnemonic_unfold split_strip ws_def[symmetric] mnemonic_valid_def)
  next
    case True
    then obtain k where k: "length ws = 3 * k" "4 \<le> k" "k \<le> 8"
      using allowed_word_count by blast
    show ?thesis
    proof (cases "\<forall>w \<in> set ws. w \<in> set (wordlist self)")
      case False
      then have "\<exists>w \<in> set ws. wordlist_dict self w = None"
        by (simp add: d dict_of_wordlist_None)
      then have "lookup_all (wordlist_dict self) ws = Inl KeyError"
        by (simp add: lookup_all_Inl)
      with True False show ?thesis
        by (simp add: validate_mnemonic_unfold split_strip ws_def[symmetric] mnemonic_valid_def)
    next
      case all: True
      define idxs where "idxs = map (\<lambda>w. the (wordlist_dict self w)) ws"
      have some: "\<forall>w \<in> set ws. \<exists>i. wordlist_dict self w = Some i"
        using all dict_of_wordlist_None[of "wordlist self"] by (auto simp: d)
      then have "map (wordlist_dict self) ws = map Some idxs"
        by (auto simp: idxs_def)
      then have look: "lookup_all (wordlist_dict self) ws = Inr idxs"
        by (simp add: lookup_all_Inr)
      have lt: "\<forall>i \<in> set idxs. i < 2048"
      proof
        fix i assume "i \<in> set idxs"
        then obtain w where "w \<in> set ws" "i = the (wordlist_dict self w)"
          by (auto simp: idxs_def)
        with some have "dict_of_wordlist (wordlist self) w = Some i"
          by (auto simp: d)
        from dict_of_wordlist_Some[OF this] wl show "i < 2048" by simp
      qed
      have len: "length idxs = 3 * k" using k by (simp add: idxs_def)
      from validate_tail_checksum[OF h len k(2,3) lt] True all look k(1) show ?thesis
        by (auto simp: validate_mnemonic_unfold split_strip ws_def[symmetric] mnemonic_valid_def
            idxs_def[symmetric])
    qed
  qed
qed

lemma validate_mnemonic_tokens:
  assumes init: "init_BIP39 file = Inr self" and h: "hashlib_ok M"
    and eq: "split a = split b"
  shows "validate_mnemonic M self a = validate_mnemonic M self b"
  using init_BIP39_Inr(1,2)[OF init] h eq by (simp add: validate_mnemonic_valid)

lemma checksum_ok_groups:
  assumes h: "hashlib_ok M"
    and len: "length entropy = 4 * k" "k \<le> 8"
  shows "checksum_ok M (map bits_nat (groups 11 (mnemonic_bits M entropy)))"
proof -
  let ?B = "mnemonic_bits M entropy"
  have lB: "length ?B = 11 * (3 * k)" by (rule length_mnemonic_bits[OF h len])
  have gl: "\<forall>g \<in> set (groups 11 ?B). length g = 11"
    by (rule groups_lengths[OF _ lB]) simp
  have ng: "length (groups 11 ?B) = 3 * k"
    by (rule length_groups[OF _ lB]) simp
  have "map (bits_be 11) (map bits_nat (groups 11 ?B)) = groups 11 ?B"
  proof -
    have "bits_be 11 (bits_nat g) = g" if "g \<in> set (groups 11 ?B)" for g
      using gl that bits_be_bits_nat[of g] by auto
    then show ?thesis by (simp add: map_idI)
  qed
  then have bits: "concat (map (bits_be 11) (map bits_nat (groups 11 ?B))) = ?B"
    by (simp only: concat_groups[of 11 ?B, simplified])
  have sl: "length (sha256 M x) = 32" for x
    using h by (simp add: hashlib_ok_def)
  have t: "take (length ?B - k) ?B = bytes_bits entropy"
    using len lB by (simp add: mnemonic_bits_def sl)
  have dr: "drop (length ?B - k) ?B = take k (bytes_bits (sha256 M entropy))"
    using len lB by (simp add: mnemonic_bits_def sl)
  show ?thesis
    unfolding checksum_ok_def Let_def bits
    by (simp add: ng t dr bits_bytes_bytes_bits)
qed

subsection \<open>Generated mnemonics validate\<close>

lemma mnemonic_words_facts:
  assumes wl: "length wl = 2048"
    and h: "hashlib_ok M"
    and len: "length entropy = 4 * k" "k \<le> 8"
  shows "length (mnemonic_words M wl entropy) = 3 * k"
    and "\<forall>w \<in> set (mnemonic_words M wl entropy). w \<in> set wl"
    and "distinct wl \<Longrightarrow>
           map (\<lambda>w. the (dict_of_wordlist wl w)) (mnemonic_words M wl entropy)
             = map bits_nat (groups 11 (mnemonic_bits M entropy))"
proof -
  let ?gs = "groups 11 (mnemonic_bits M entropy)"
  have lB: "length (mnemonic_bits M entropy) = 11 * (3 * k)"
    by (rule length_mnemonic_bits[OF h len])
  have gl: "\<forall>g \<in> set ?gs. length g = 11"
    by (rule groups_lengths[OF _ lB]) simp
  have lt: "bits_nat g < length wl" if "g \<in> set ?gs" for g
    using bits_nat_less[of g] gl that wl by auto
  show "length (mnemonic_words M wl entropy) = 3 * k"
    using length_groups[OF _ lB] by (simp add: mnemonic_words_def)
  show "\<forall>w \<in> set (mnemonic_words M wl entropy). w \<in> set wl"
    using lt by (auto simp: mnemonic_words_def)
  show "map (\<lambda>w. the (dict_of_wordlist wl w)) (mnemonic_words M wl entropy) = map bits_nat ?gs"
    if "distinct wl"
    using lt dict_of_wordlist_nth[OF that] by (simp add: mnemonic_words_def)
qed

lemma entropy_mnemonic_validates:
  assumes wl: "length (wordlist self) = 2048"
    and d: "wordlist_dict self = dict_of_wordlist (wordlist self)"
    and ne: "\<forall>w \<in> set (wordlist self). w \<noteq> []"
    and dist: "distinct (wordlist self)"
    and ns: "\<forall>w \<in> set (wordlist self). no_space w"
    and h: "hashlib_ok M"
    and len: "length entropy = 4 * k" "4 \<le> k" "k \<le> 8"
  shows "split (join '' '' (mnemonic_words M (wordlist self) entropy))
           = mnemonic_words M (wordlist self) entropy"
    and "validate_mnemonic M self (join '' '' (mnemonic_words M (wordlist self) entropy)) = Inr True"
proof -
  let ?ws = "mnemonic_words M (wordlist self) entropy"
  note f = mnemonic_words_facts[OF wl h len(1,3)]
  show sp: "split (join '' '' ?ws) = ?ws"
    by (rule split_join) (use f(2) ne ns in auto)
  have "length ?ws \<in> set [12, 15, 18, 21, 24]"
    using f(1) len by auto
  moreover have "checksum_ok M (map (\<lambda>w. the (wordlist_dict self w)) ?ws)"
    using checksum_ok_groups[OF h len(1,3)] f(3)[OF dist] by (simp add: d)
  ultimately have "mnemonic_valid M self ?ws"
    using f(2) by (simp add: mnemonic_valid_def)
  then show "validate_mnemonic M self (join '' '' ?ws) = Inr True"
    by (simp add: validate_mnemonic_valid[OF wl d h] sp)
qed

lemma allowed_strength:
  "strength \<in> set [128, 160, 192, 224, 256] \<Longrightarrow>
     \<exists>k. strength = 32 * int k \<and> 4 \<le> k \<and> k \<le> (8::nat)"
proof -
  assume "strength \<in> set [128, 160, 192, 224, 256]"
  then have "strength = 32 * int (nat (strength div 32)) \<and> 4 \<le> nat (strength div 32)
               \<and> nat (strength div 32) \<le> 8"
    by auto
  then show ?thesis by blast
qed

lemma generate_mnemonic_words:
  assumes wl: "length (wordlist self) = 2048"
    and h: "hashlib_ok M" and r: "secrets_ok M"
    and s: "strength = 32 * int k" "4 \<le> k" "k \<le> 8"
  shows "length (token_bytes M (nat (strength div 8))) = 4 * k"
    and "generate_mnemonic M self strength
           = Inr (join '' '' (mnemonic_words M (wordlist self) (token_bytes M (nat (strength div 8)))))"
proof -
  have n: "nat (strength div 8) = 4 * k" using s(1) by simp
  show l: "length (token_bytes M (nat (strength div 8))) = 4 * k"
    using r by (simp add: secrets_ok_def n)
  have a: "length (token_bytes M (nat (strength div 8))) \<in> set [16, 20, 24, 28, 32]"
    using l s(2,3) by auto
  have "strength \<in> set [128, 160, 192, 224, 256]" using s by auto
  then show "generate_mnemonic M self strength
           = Inr (join '' '' (mnemonic_words M (wordlist self) (token_bytes M (nat (strength div 8)))))"
    using entropy_to_mnemonic_words[OF wl h a] by (simp add: generate_mnemonic_def)
qed

subsection \<open>Hexadecimal text\<close>

lemma upper_hex_digit:
  "d < 16 \<Longrightarrow> upper_char (hex_digit d) = ''0123456789ABCDEF'' ! d"
proof -
  assume "d < 16"
  then have "d = 0 \<or> d = 1 \<or> d = 2 \<or> d = 3 \<or> d = 4 \<or> d = 5 \<or> d = 6 \<or> d = 7 \<or>
             d = 8 \<or> d = 9 \<or> d = 10 \<or> d = 11 \<or> d = 12 \<or> d = 13 \<or> d = 14 \<or> d = 15"
    by arith
  then show ?thesis
    by (elim disjE) (simp_all add: upper_char_def hex_digit_def char_of_def bit_iff_odd)
qed

lemma upper_hex: "upper (hex bs) = hex_upper bs"
proof -
  have "unat b div 16 < 16" "unat b mod 16 < 16" for b :: byte
    using unat_byte_less[of b] by auto
  then show ?thesis
    by (induction bs) (simp_all add: upper_def hex_def hex_upper_def upper_hex_digit)
qed

lemma length_hex_upper [simp]: "length (hex_upper bs) = 2 * length bs"
  by (induction bs) (simp_all add: hex_upper_def)

lemma hex_upper_chars: "set (hex_upper bs) \<subseteq> set ''0123456789ABCDEF''"
proof -
  have "''0123456789ABCDEF'' ! d \<in> set ''0123456789ABCDEF''" if "d < 16" for d
    using that nth_mem[of d "''0123456789ABCDEF''"] by simp
  moreover have "unat b div 16 < 16" "unat b mod 16 < 16" for b :: byte
    using unat_byte_less[of b] by auto
  ultimately show ?thesis
    unfolding hex_upper_def by (induction bs) auto
qed

subsection \<open>Key derivation\<close>

lemma generate_from_seed_keys:
  assumes h: "hashlib_ok M" and n: "nacl_ok M" and c: "cryptography_ok M"
  shows "\<exists>pk. length pk = 32 \<and> derived_public_key M (sha256 M seed) = Inr pk \<and>
           generate_from_seed M seed
             = Inr \<lparr>keys_private_key = sha256 M seed @ pk, keys_public_key = pk\<rparr>"
proof -
  have l: "length (sha256 M seed) = 32" using h by (simp add: hashlib_ok_def)
  show ?thesis
  proof (cases "HAS_NACL M")
    case True
    from n l obtain pk where "length pk = 32"
      "SigningKey M (sha256 M seed) = Inr \<lparr>key_bytes = sha256 M seed, verify_key = pk\<rparr>"
      unfolding nacl_ok_def by blast
    with True show ?thesis
      by (simp add: generate_from_seed_def derived_public_key_def)
  next
    case False
    from c l obtain pk where "length pk = 32" "from_private_bytes M (sha256 M seed) = Inr pk"
      unfolding cryptography_ok_def by blast
    with False show ?thesis
      by (simp add: generate_from_seed_def derived_public_key_def)
  qed
qed

lemma generate_from_seed_backends:
  assumes h: "hashlib_ok M" and n: "nacl_ok M" and s: "same_ed25519 M"
  shows "\<exists>pk. length pk = 32 \<and>
           (\<forall>b. generate_from_seed (M\<lparr>HAS_NACL := b\<rparr>) seed
                  = Inr \<lparr>keys_private_key = sha256 M seed @ pk, keys_public_key = pk\<rparr>)"
proof -
  have l: "length (sha256 M seed) = 32" using h by (simp add: hashlib_ok_def)
  from n l obtain pk where pk: "length pk = 32"
    "SigningKey M (sha256 M seed) = Inr \<lparr>key_bytes = sha256 M seed, verify_key = pk\<rparr>"
    unfolding nacl_ok_def by blast
  with s l have "from_private_bytes M (sha256 M seed) = Inr pk"
    unfolding same_ed25519_def by (auto dest!: spec[of _ "sha256 M seed"])
  with pk show ?thesis
    by (intro exI[of _ pk]) (simp add: generate_from_seed_def Let_def)
qed

lemma generate_address_hex:
  "generate_address M public_key = Inr (hex_upper (take 20 (sha256 M public_key)))"
  by (simp add: generate_address_def upper_hex)

text \<open>The seed is the output of PBKDF2 on the UTF-8 encoding of the mnemonic string as
  given (no token is normalised), with the UTF-8 encoding of \<open>mnemonic\<close> followed by
  the passphrase as salt and 2048 iterations.\<close>

lemma mnemonic_to_seed_pbkdf2:
  "mnemonic_to_seed M self mnemonic passphrase
     = pbkdf2_hmac M ''sha512'' (encode_utf8 mnemonic) (encode_utf8 (''mnemonic'' @ passphrase)) 2048"
  by (simp add: mnemonic_to_seed_def)

lemma derive_validator_key_cong:
  assumes "sha256 M = sha256 M'" "pbkdf2_hmac M = pbkdf2_hmac M'" "HAS_NACL M = HAS_NACL M'"
    "SigningKey M = SigningKey M'" "from_private_bytes M = from_private_bytes M'"
    "b64encode M = b64encode M'"
  shows "derive_validator_key M self mnemonic passphrase
           = derive_validator_key M' self' mnemonic passphrase"
  unfolding derive_validator_key_def mnemonic_to_seed_def generate_from_seed_def
    create_priv_validator_key_def generate_address_def Let_def assms
  by (rule refl)

lemma derive_validator_key_result:
  assumes h: "hashlib_ok M" and n: "nacl_ok M" and s: "same_ed25519 M"
  shows "\<exists>pk. length pk = 32 \<and>
          (\<forall>b r self.
             derive_validator_key (M\<lparr>token_bytes := r, HAS_NACL := b\<rparr>) self mnemonic passphrase
               = Inr \<lparr>address = hex_upper (take 20 (sha256 M pk)),
                      pub_key = \<lparr>key_type = ''tendermint/PubKeyEd25519'',
                                 key_value = b64encode M pk\<rparr>,
                      priv_key = \<lparr>key_type = ''tendermint/PrivKeyEd25519'',
                                  key_value = b64encode M
                                    (sha256 M (pbkdf2_hmac M ''sha512'' (encode_utf8 mnemonic)
                                       (encode_utf8 (''mnemonic'' @ passphrase)) 2048) @ pk)\<rparr>\<rparr>)"
proof -
  let ?seed = "pbkdf2_hmac M ''sha512'' (encode_utf8 mnemonic) (encode_utf8 (''mnemonic'' @ passphrase)) 2048"
  from generate_from_seed_backends[OF h n s, of ?seed] obtain pk where
    pk: "length pk = 32"
      "\<And>b. generate_from_seed (M\<lparr>HAS_NACL := b\<rparr>) ?seed
              = Inr \<lparr>keys_private_key = sha256 M ?seed @ pk, keys_public_key = pk\<rparr>"
    by blast
  have "derive_validator_key (M\<lparr>token_bytes := r, HAS_NACL := b\<rparr>) self mnemonic passphrase
          = derive_validator_key (M\<lparr>HAS_NACL := b\<rparr>) self mnemonic passphrase" for r b self
    by (rule derive_validator_key_cong) simp_all
  moreover have "derive_validator_key (M\<lparr>HAS_NACL := b\<rparr>) self mnemonic passphrase
          = Inr \<lparr>address = hex_upper (take 20 (sha256 M pk)),
                 pub_key = \<lparr>key_type = ''tendermint/PubKeyEd25519'', key_value = b64encode M pk\<rparr>,
                 priv_key = \<lparr>key_type = ''tendermint/PrivKeyEd25519'',
                             key_value = b64encode M (sha256 M ?seed @ pk)\<rparr>\<rparr>" for b self
    using pk(2)[of b]
    by (simp add: derive_validator_key_def mnemonic_to_seed_def
          create_priv_validator_key_def generate_address_hex)
  ultimately show ?thesis using pk(1) by auto
qed

subsection \<open>The stand-ins satisfy the assumptions\<close>

lemma toy_modules_ok:
  "hashlib_ok toy_modules" "secrets_ok toy_modules" "nacl_ok toy_modules"
  "cryptography_ok toy_modules" "same_ed25519 toy_modules" "pbkdf2_ok toy_modules"
  by (simp_all add: hashlib_ok_def secrets_ok_def nacl_ok_def cryptography_ok_def
      same_ed25519_def pbkdf2_ok_def toy_modules_def length_digest_def next_bytes_def)

lemma binary_word_no_space: "no_space (bit_text bs)"
  by (induction bs) (auto simp: no_space_def bit_text_def is_space_def)

lemma binary_wordlist_facts:
  "length binary_wordlist = 2048"
  "distinct binary_wordlist"
  "\<forall>w \<in> set binary_wordlist. no_space w"
  "\<forall>w \<in> set binary_wordlist. w \<noteq> []"
proof -
  show "length binary_wordlist = 2048" by (simp add: binary_wordlist_def)
  have "inj_on (\<lambda>i. bit_text (bits_be 11 i)) (set [0 ..< 2048])"
  proof (rule inj_onI)
    fix i j :: nat
    assume "i \<in> set [0 ..< 2048]" "j \<in> set [0 ..< 2048]"
      and "bit_text (bits_be 11 i) = bit_text (bits_be 11 j)"
    then have "i < 2 ^ 11" "j < 2 ^ 11" "bits_be 11 i = bits_be 11 j"
      by (simp_all add: bit_text_inj)
    then show "i = j" by (metis bits_nat_bits_be)
  qed
  then show "distinct binary_wordlist"
    by (simp add: binary_wordlist_def distinct_map)
  show "\<forall>w \<in> set binary_wordlist. no_space w"
    by (auto simp: binary_wordlist_def binary_word_no_space)
  show "\<forall>w \<in> set binary_wordlist. w \<noteq> []"
  proof
    fix w assume "w \<in> set binary_wordlist"
    then have "length w = 11" by (auto simp: binary_wordlist_def)
    then show "w \<noteq> []" by auto
  qed
qed

lemma strip_line:
  assumes "w \<noteq> []" "no_space w"
  shows "strip (w @ [CHR 0x0A]) = w"
proof -
  from assms obtain c cs where w: "w = c # cs" and c: "\<not> is_space c"
    by (cases w) (auto simp: no_space_def)
  from assms have "rev w \<noteq> []" "\<not> is_space (hd (rev w))"
    by (auto simp: no_space_def hd_rev)
  then have r: "dropWhile is_space (rev w) = rev w"
    by (cases "rev w") auto
  have nl: "is_space (CHR 0x0A)" by (simp add: is_space_def)
  have "dropWhile is_space (w @ [CHR 0x0A]) = w @ [CHR 0x0A]"
    using w c by simp
  then show ?thesis
    using nl r by (simp add: strip_def)
qed

lemma init_binary_bip39: "init_BIP39 binary_wordlist_file = Inr binary_bip39"
proof -
  have s: "strip (w @ [CHR 0x0A]) = w" if "w \<in> set binary_wordlist" for w
    using that binary_wordlist_facts(3,4) strip_line by blast
  then have f: "filter (\<lambda>line. strip line \<noteq> []) (map (\<lambda>w. w @ [CHR 0x0A]) binary_wordlist)
               = map (\<lambda>w. w @ [CHR 0x0A]) binary_wordlist"
    using binary_wordlist_facts(4) by (auto simp: filter_id_conv)
  have "map strip (map (\<lambda>w. w @ [CHR 0x0A]) binary_wordlist) = binary_wordlist"
    using s by (simp add: map_idI comp_def)
  with f show ?thesis
    by (simp add: init_BIP39_def load_wordlist_def binary_wordlist_file_def binary_bip39_def
        binary_wordlist_facts(1))
qed

lemma toy_space_sensitive: "space_sensitive toy_modules m"
proof -
  have "(of_nat (Suc n) :: byte) \<noteq> of_nat n" for n
    by simp
  then have "replicate 64 (of_nat (Suc n) :: byte) \<noteq> replicate 64 (of_nat n)" for n
    by (metis replicate_eq_replicate zero_neq_numeral)
  then show ?thesis
    by (simp add: space_sensitive_def toy_modules_def length_digest_def encode_utf8_trailing_space)
qed

section \<open>The claims\<close>

text \<open>
  Claim C1. For every strength in 128, 160, 192, 224, 256, \<open>generate_mnemonic\<close>
  returns a mnemonic of exactly strength/32*3 words, and \<open>validate_mnemonic\<close> accepts
  it. The word list is the one the constructor loaded (2048 words); the theorem needs
  its words to be distinct and free of whitespace, as the words of a BIP39 list are,
  and the libraries to return digests of 32 bytes and as many random bytes as asked.
\<close>

theorem C1_generated_mnemonic_validates:
  assumes init: "init_BIP39 file = Inr self"
    and dist: "distinct (wordlist self)"
    and ns: "\<forall>w \<in> set (wordlist self). no_space w"
    and h: "hashlib_ok M"
    and r: "secrets_ok M"
    and s: "strength \<in> set [128, 160, 192, 224, 256]"
  shows "\<exists>m. generate_mnemonic M self strength = Inr m \<and>
              length (split m) = nat (strength div 32 * 3) \<and>
              validate_mnemonic M self m = Inr True"
proof -
  note i = init_BIP39_Inr[OF init]
  from allowed_strength[OF s] obtain k where k: "strength = 32 * int k" "4 \<le> k" "k \<le> 8"
    by blast
  let ?e = "token_bytes M (nat (strength div 8))"
  let ?ws = "mnemonic_words M (wordlist self) ?e"
  note g = generate_mnemonic_words[OF i(1) h r k]
  note v = entropy_mnemonic_validates[OF i(1) i(2) i(3) dist ns h g(1) k(2,3)]
  have "length ?ws = 3 * k" by (rule mnemonic_words_facts(1)[OF i(1) h g(1) k(3)])
  moreover have "nat (strength div 32 * 3) = 3 * k" using k(1) by simp
  ultimately have "length (split (join '' '' ?ws)) = nat (strength div 32 * 3)"
    by (simp add: v(1))
  with g(2) v(2) show ?thesis by blast
qed

theorem C1_witness:
  "\<exists>m. generate_mnemonic toy_modules binary_bip39 128 = Inr m \<and>
        length (split m) = 12 \<and>
        validate_mnemonic toy_modules binary_bip39 m = Inr True"
proof -
  have w: "\<forall>w \<in> set (wordlist binary_bip39). no_space w" "distinct (wordlist binary_bip39)"
    using binary_wordlist_facts by (simp_all add: binary_bip39_def)
  have "(128::int) \<in> set [128, 160, 192, 224, 256]" by simp
  from C1_generated_mnemonic_validates[OF init_binary_bip39 w(2) w(1) toy_modules_ok(1,2) this]
  show ?thesis by simp
qed

text \<open>
  Claim C2. For an entropy of 16, 20, 24, 28 or 32 bytes, \<open>_entropy_to_mnemonic\<close>
  returns the words, joined by single spaces and in order, that the word list has at
  the values of the consecutive 11-bit groups of the bit string made of the big-endian
  bits of the entropy followed by the first entropyBits/32 bits of its SHA-256.
\<close>

theorem C2_entropy_to_mnemonic_encoding:
  assumes init: "init_BIP39 file = Inr self"
    and h: "hashlib_ok M"
    and len: "length entropy \<in> set [16, 20, 24, 28, 32]"
  shows "entropy_to_mnemonic M self entropy
           = Inr (join '' ''
                (map (\<lambda>g. wordlist self ! bits_nat g)
                   (groups 11
                      (bytes_bits entropy
                         @ take (length entropy * 8 div 32) (bytes_bits (sha256 M entropy))))))"
  using entropy_to_mnemonic_words[OF init_BIP39_Inr(1)[OF init] h len]
  by (simp add: mnemonic_words_def mnemonic_bits_def)

theorem C2_witness:
  "entropy_to_mnemonic toy_modules binary_bip39 (replicate 16 0)
     = Inr (join '' ''
          (map (\<lambda>g. binary_wordlist ! bits_nat g)
             (groups 11
                (bytes_bits (replicate 16 0)
                   @ take 4 (bytes_bits (length_digest 32 (replicate 16 0)))))))"
proof -
  have "length (replicate 16 (0::byte)) \<in> set [16, 20, 24, 28, 32]" by simp
  from C2_entropy_to_mnemonic_encoding[OF init_binary_bip39 toy_modules_ok(1) this]
  show ?thesis by (simp add: binary_bip39_def toy_modules_def)
qed

text \<open>
  Claim C3. For every input string, \<open>validate_mnemonic\<close> returns false, and raises
  nothing, when the number of whitespace-separated tokens is not 12, 15, 18, 21 or 24,
  or when a token is not in the word list. Otherwise it returns whether the last
  wordCount/3 bits of the bit string of the 11-bit word indices are the first
  wordCount/3 bits of the SHA-256 of the bytes of the other bits (\<open>checksum_ok\<close>). A
  mnemonic of 13 words is rejected.
\<close>

theorem C3_validate_mnemonic_checks:
  assumes init: "init_BIP39 file = Inr self"
    and h: "hashlib_ok M"
  shows "(length (split mnemonic) \<notin> set [12, 15, 18, 21, 24] \<longrightarrow>
            validate_mnemonic M self mnemonic = Inr False) \<and>
         ((\<exists>w \<in> set (split mnemonic). w \<notin> set (wordlist self)) \<longrightarrow>
            validate_mnemonic M self mnemonic = Inr False) \<and>
         (length (split mnemonic) \<in> set [12, 15, 18, 21, 24] \<and>
          (\<forall>w \<in> set (split mnemonic). w \<in> set (wordlist self)) \<longrightarrow>
            validate_mnemonic M self mnemonic
              = Inr (checksum_ok M (map (\<lambda>w. the (wordlist_dict self w)) (split mnemonic)))) \<and>
         (length (split mnemonic) = 13 \<longrightarrow> validate_mnemonic M self mnemonic = Inr False)"
proof -
  note i = init_BIP39_Inr[OF init]
  have "validate_mnemonic M self mnemonic = Inr (mnemonic_valid M self (split mnemonic))"
    by (rule validate_mnemonic_valid[OF i(1) i(2) h])
  then show ?thesis
    by (auto simp: mnemonic_valid_def)
qed

theorem C3_witness:
  "validate_mnemonic toy_modules binary_bip39 ''a b c d e f g h i j k l m'' = Inr False"
proof -
  have "length (split ''a b c d e f g h i j k l m'') = 13"
    by (simp add: split_def is_space_def)
  with C3_validate_mnemonic_checks[OF init_binary_bip39 toy_modules_ok(1),
      of "''a b c d e f g h i j k l m''"]
  show ?thesis by blast
qed

text \<open>
  Claim C5. \<open>generate_from_seed\<close> hashes the seed with SHA-256, uses the 32 bytes as
  the ed25519 seed of the active library, and returns the 64-byte private key made of
  these 32 bytes followed by the 32-byte public key the library derived, together with
  that public key. The result is a function of the seed: it does not depend on the
  random source. The theorem holds for seeds of every length, 64 bytes included.
\<close>

theorem C5_generate_from_seed_layout:
  assumes h: "hashlib_ok M" and n: "nacl_ok M" and c: "cryptography_ok M"
  shows "\<exists>pk. derived_public_key M (sha256 M seed) = Inr pk \<and>
              generate_from_seed M seed
                = Inr \<lparr>keys_private_key = sha256 M seed @ pk, keys_public_key = pk\<rparr> \<and>
              length (sha256 M seed) = 32 \<and> length pk = 32 \<and>
              length (sha256 M seed @ pk) = 64 \<and>
              (\<forall>r. generate_from_seed (M\<lparr>token_bytes := r\<rparr>) seed = generate_from_seed M seed)"
proof -
  from generate_from_seed_keys[OF h n c, of seed] obtain pk where
    pk: "length pk = 32" "derived_public_key M (sha256 M seed) = Inr pk"
      "generate_from_seed M seed = Inr \<lparr>keys_private_key = sha256 M seed @ pk, keys_public_key = pk\<rparr>"
    by blast
  have l: "length (sha256 M seed) = 32" using h by (simp add: hashlib_ok_def)
  have "generate_from_seed (M\<lparr>token_bytes := r\<rparr>) seed = generate_from_seed M seed" for r
    by (simp add: generate_from_seed_def Let_def)
  with pk l show ?thesis by auto
qed

theorem C5_witness:
  "\<exists>pk. derived_public_key toy_modules (sha256 toy_modules (replicate 64 0)) = Inr pk \<and>
        generate_from_seed toy_modules (replicate 64 0)
          = Inr \<lparr>keys_private_key = sha256 toy_modules (replicate 64 0) @ pk, keys_public_key = pk\<rparr> \<and>
        length pk = 32"
  using C5_generate_from_seed_layout[OF toy_modules_ok(1,3,4), of "replicate 64 0"] by blast

text \<open>
  Claim C6. The PyNaCl branch and the cryptography branch of \<open>generate_from_seed\<close>
  return the same private key (64 bytes) and the same public key (32 bytes), for every
  seed, when PyNaCl's signing key gives back its seed as its bytes and both libraries
  derive the same public key from a seed.
\<close>

theorem C6_backends_interchangeable:
  assumes h: "hashlib_ok M" and n: "nacl_ok M" and s: "same_ed25519 M"
  shows "generate_from_seed (M\<lparr>HAS_NACL := True\<rparr>) seed
           = generate_from_seed (M\<lparr>HAS_NACL := False\<rparr>) seed \<and>
         (\<exists>keys. generate_from_seed (M\<lparr>HAS_NACL := True\<rparr>) seed = Inr keys \<and>
                 length (keys_private_key keys) = 64 \<and> length (keys_public_key keys) = 32)"
proof -
  from generate_from_seed_backends[OF h n s, of seed] obtain pk where
    pk: "length pk = 32"
      "\<And>b. generate_from_seed (M\<lparr>HAS_NACL := b\<rparr>) seed
              = Inr \<lparr>keys_private_key = sha256 M seed @ pk, keys_public_key = pk\<rparr>"
    by blast
  have l: "length (sha256 M seed) = 32" using h by (simp add: hashlib_ok_def)
  from pk l show ?thesis by simp
qed

theorem C6_witness:
  "generate_from_seed (toy_modules\<lparr>HAS_NACL := True\<rparr>) (replicate 64 0)
     = generate_from_seed (toy_modules\<lparr>HAS_NACL := False\<rparr>) (replicate 64 0)"
  using C6_backends_interchangeable[OF toy_modules_ok(1,3,5), of "replicate 64 0"] by blast

text \<open>
  Claim C7. For a 32-byte public key, \<open>generate_address\<close> returns the uppercase
  hexadecimal text of the first 20 bytes of the SHA-256 of the key: 40 characters, each
  one of \<open>0123456789ABCDEF\<close>.
\<close>

theorem C7_generate_address_format:
  assumes h: "hashlib_ok M" and len: "length public_key = 32"
  shows "generate_address M public_key = Inr (hex_upper (take 20 (sha256 M public_key))) \<and>
         length (hex_upper (take 20 (sha256 M public_key))) = 40 \<and>
         set (hex_upper (take 20 (sha256 M public_key))) \<subseteq> set ''0123456789ABCDEF''"
proof -
  have "length (sha256 M public_key) = 32" using h by (simp add: hashlib_ok_def)
  then have "length (hex_upper (take 20 (sha256 M public_key))) = 40" by simp
  then show ?thesis by (intro conjI generate_address_hex hex_upper_chars)
qed

theorem C7_witness:
  "generate_address toy_modules (replicate 32 0) = Inr ''2020202020202020202020202020202020202020''"
proof -
  have "hex_upper (take 20 (sha256 toy_modules (replicate 32 0)))
          = ''2020202020202020202020202020202020202020''"
    by (simp add: toy_modules_def length_digest_def) code_simp
  with C7_generate_address_format[OF toy_modules_ok(1), of "replicate 32 0"]
  show ?thesis by simp
qed

text \<open>
  Claim C8 says that \<open>generate_address\<close> fails with InvalidKeyLengthError on an input
  that is not 32 bytes long. The function checks no length: on the empty input, whose
  length is not 32, it returns an address for all library functions.
\<close>

theorem C8_no_length_check:
  "length ([] :: bytes) \<noteq> 32 \<and>
   (\<forall>M. generate_address M [] = Inr (hex_upper (take 20 (sha256 M []))) \<and>
        generate_address M [] \<noteq> Inl InvalidKeyLengthError)"
  by (simp add: generate_address_hex)

text \<open>
  Claim C8, amended. \<open>generate_address\<close> accepts an input of any length: it returns the
  uppercase hexadecimal text of the first 20 bytes of the SHA-256 of its input, and
  never an error.
\<close>

theorem C8_generate_address_any_length:
  "generate_address M public_key = Inr (upper (hex (take 20 (sha256 M public_key)))) \<and>
   generate_address M public_key \<noteq> Inl e"
  by (simp add: generate_address_def)

text \<open>
  Claim C9. The pipeline \<open>mnemonic_to_seed\<close>, \<open>generate_from_seed\<close>,
  \<open>create_priv_validator_key\<close> is a function of the mnemonic and the passphrase: two
  runs on the same mnemonic and passphrase give the same result whatever the random
  source draws and whatever BIP39 object is used; and when the libraries behave as
  documented, the result is one validator record (address, \<open>pub_key\<close>, \<open>priv_key\<close>),
  the same under both signature libraries.
\<close>

theorem C9_pipeline_deterministic:
  "derive_validator_key (M\<lparr>token_bytes := r1\<rparr>) self1 mnemonic passphrase
     = derive_validator_key (M\<lparr>token_bytes := r2\<rparr>) self2 mnemonic passphrase \<and>
   (hashlib_ok M \<and> nacl_ok M \<and> same_ed25519 M \<longrightarrow>
      (\<exists>result. \<forall>b r self.
         derive_validator_key (M\<lparr>token_bytes := r, HAS_NACL := b\<rparr>) self mnemonic passphrase
           = Inr result))"
proof
  show "derive_validator_key (M\<lparr>token_bytes := r1\<rparr>) self1 mnemonic passphrase
     = derive_validator_key (M\<lparr>token_bytes := r2\<rparr>) self2 mnemonic passphrase"
    by (rule derive_validator_key_cong) simp_all
  show "hashlib_ok M \<and> nacl_ok M \<and> same_ed25519 M \<longrightarrow>
      (\<exists>result. \<forall>b r self.
         derive_validator_key (M\<lparr>token_bytes := r, HAS_NACL := b\<rparr>) self mnemonic passphrase
           = Inr result)"
    using derive_validator_key_result[of M mnemonic passphrase] by blast
qed

theorem C9_witness:
  "\<exists>result. \<forall>b r self.
     derive_validator_key (toy_modules\<lparr>token_bytes := r, HAS_NACL := b\<rparr>) self
       ''abandon about'' '''' = Inr result"
  using C9_pipeline_deterministic[where M = toy_modules and mnemonic = "''abandon about''"
      and passphrase = "''''"] toy_modules_ok
  by blast

text \<open>
  Claim C10. \<open>validate_mnemonic\<close> depends only on the sequence of whitespace-separated
  tokens of its input, while \<open>mnemonic_to_seed\<close> passes the bytes of the input string to
  PBKDF2 as they are. Hence there are two strings with the same words (a generated
  mnemonic, and the same followed by a space) that both validate and give different
  64-byte seeds, provided PBKDF2 does not collide on these two passwords
  (\<open>space_sensitive\<close>).
\<close>

theorem C10_whitespace_variants:
  assumes init: "init_BIP39 file = Inr self"
    and dist: "distinct (wordlist self)"
    and ns: "\<forall>w \<in> set (wordlist self). no_space w"
    and h: "hashlib_ok M"
    and p: "pbkdf2_ok M"
    and len: "length entropy \<in> set [16, 20, 24, 28, 32]"
    and sep: "space_sensitive M (join '' '' (mnemonic_words M (wordlist self) entropy))"
  shows "(\<forall>a b. split a = split b \<longrightarrow>
            validate_mnemonic M self a = validate_mnemonic M self b) \<and>
         (\<forall>m passphrase.
            mnemonic_to_seed M self m passphrase
              = pbkdf2_hmac M ''sha512'' (encode_utf8 m) (encode_utf8 (''mnemonic'' @ passphrase)) 2048) \<and>
         (\<exists>m1 m2. split m1 = split m2 \<and>
            validate_mnemonic M self m1 = Inr True \<and>
            validate_mnemonic M self m2 = Inr True \<and>
            length (mnemonic_to_seed M self m1 '''') = 64 \<and>
            length (mnemonic_to_seed M self m2 '''') = 64 \<and>
            mnemonic_to_seed M self m1 '''' \<noteq> mnemonic_to_seed M self m2 '''')"
proof (intro conjI allI impI)
  fix a b assume "split a = split b"
  then show "validate_mnemonic M self a = validate_mnemonic M self b"
    by (rule validate_mnemonic_tokens[OF init h])
next
  fix m passphrase
  show "mnemonic_to_seed M self m passphrase
          = pbkdf2_hmac M ''sha512'' (encode_utf8 m) (encode_utf8 (''mnemonic'' @ passphrase)) 2048"
    by (rule mnemonic_to_seed_pbkdf2)
next
  note i = init_BIP39_Inr[OF init]
  from allowed_entropy_length[OF len] obtain k where
    k: "length entropy = 4 * k" "4 \<le> k" "k \<le> 8" by blast
  let ?m = "join '' '' (mnemonic_words M (wordlist self) entropy)"
  have v1: "validate_mnemonic M self ?m = Inr True"
    by (rule entropy_mnemonic_validates(2)[OF i(1) i(2) i(3) dist ns h k])
  have s: "split (?m @ '' '') = split ?m" by (rule split_trailing_space)
  have v2: "validate_mnemonic M self (?m @ '' '') = Inr True"
    using validate_mnemonic_tokens[OF init h s] v1 by simp
  have l: "length (mnemonic_to_seed M self m '''') = 64" for m
    using p by (simp add: mnemonic_to_seed_pbkdf2 pbkdf2_ok_def)
  have d: "mnemonic_to_seed M self (?m @ '' '') '''' \<noteq> mnemonic_to_seed M self ?m ''''"
    using sep by (simp add: mnemonic_to_seed_pbkdf2 space_sensitive_def)
  show "\<exists>m1 m2. split m1 = split m2 \<and>
            validate_mnemonic M self m1 = Inr True \<and>
            validate_mnemonic M self m2 = Inr True \<and>
            length (mnemonic_to_seed M self m1 '''') = 64 \<and>
            length (mnemonic_to_seed M self m2 '''') = 64 \<and>
            mnemonic_to_seed M self m1 '''' \<noteq> mnemonic_to_seed M self m2 ''''"
    using s v1 v2 l d by blast
qed

theorem C10_witness:
  "\<exists>m1 m2. split m1 = split m2 \<and>
     validate_mnemonic toy_modules binary_bip39 m1 = Inr True \<and>
     validate_mnemonic toy_modules binary_bip39 m2 = Inr True \<and>
     mnemonic_to_seed toy_modules binary_bip39 m1 '''' \<noteq> mnemonic_to_seed toy_modules binary_bip39 m2 ''''"
proof -
  have w: "\<forall>w \<in> set (wordlist binary_bip39). no_space w" "distinct (wordlist binary_bip39)"
    using binary_wordlist_facts by (simp_all add: binary_bip39_def)
  have len: "length (replicate 16 (0::byte)) \<in> set [16, 20, 24, 28, 32]" by simp
  from C10_whitespace_variants[OF init_binary_bip39 w(2) w(1) toy_modules_ok(1,6) len
      toy_space_sensitive]
  show ?thesis by blast
qed

end
